theory Spec2Isabelle
  imports Complex_Main "HOL-Library.Multiset"
begin

section \<open>The board purchase optimiser of wood\_cutter.py\<close>

text \<open>
  The source is one Python file: the class \<open>Panel\<close> (a board with its list of free
  rectangles and the placements made on it) and the function \<open>optimize_purchase\<close>
  (the greedy loop that buys one board per iteration). Python's unbounded integers are
  \<open>int\<close>; tuples are products; the exceptions the optimiser can raise are values
  of \<open>error\<close>. The progress bar (\<open>tqdm\<close>) only prints and is left out.
\<close>

subsection \<open>Data\<close>

datatype error = UnpackablePiece | ZeroDivisionError | OverflowError

text \<open>A free rectangle is \<open>(x, y, width, height)\<close>; a placement on a panel is
  \<open>(x, y, w, h, rotated)\<close>; an entry of the cutting plan is
  \<open>(x, y, w, h, board_number, rotated)\<close>; a piece is \<open>(width, height)\<close>; a board type is
  \<open>(width, height, cost)\<close>; a requirement is \<open>(width, height, quantity)\<close>.\<close>

type_synonym rect = "int \<times> int \<times> int \<times> int"
type_synonym placement = "int \<times> int \<times> int \<times> int \<times> bool"
type_synonym plan_entry = "int \<times> int \<times> int \<times> int \<times> nat \<times> bool"
type_synonym piece = "int \<times> int"
type_synonym board = "int \<times> int \<times> int"
type_synonym requirement = "int \<times> int \<times> int"

record Panel =
  width :: int
  height :: int
  free_rectangles :: "rect list"
  placements :: "placement list"

text \<open>\<open>Panel.__init__\<close>: the whole board is free and nothing is placed.\<close>

definition Panel_init :: "int \<Rightarrow> int \<Rightarrow> Panel" where
  "Panel_init w h =
     \<lparr>width = w, height = h, free_rectangles = [(0, 0, w, h)], placements = []\<rparr>"

subsection \<open>Panel.try\_place\<close>

text \<open>\<open>del xs[i]\<close> for an index in range. Every call below passes an index that the
  enumeration of the same list has produced (lemmas \<open>scan_free_index\<close> and
  \<open>pack_loop_indices\<close>), so Python's IndexError cannot occur.\<close>

definition del_at :: "nat \<Rightarrow> 'a list \<Rightarrow> 'a list" where
  "del_at i xs = take i xs @ drop (Suc i) xs"

text \<open>The inner loop \<open>for i, (fx, fy, fw, fh) in enumerate(self.free_rectangles)\<close>
  up to its first hit: the index and the rectangle of the first entry with
  \<open>fw >= w and fh >= h\<close>, or \<open>None\<close> when the loop runs to its end.\<close>

fun scan_free :: "int \<Rightarrow> int \<Rightarrow> nat \<Rightarrow> rect list \<Rightarrow> (nat \<times> rect) option" where
  "scan_free w h i [] = None"
| "scan_free w h i ((fx, fy, fw, fh) # rest) =
     (if fw \<ge> w \<and> fh \<ge> h then Some (i, (fx, fy, fw, fh))
      else scan_free w h (Suc i) rest)"

text \<open>The update of the free list on a hit: delete entry \<open>i\<close>, append the strip to the
  right when \<open>fw - w > 0\<close>, then the strip below when \<open>fh - h > 0\<close>.\<close>

definition split_free :: "rect list \<Rightarrow> nat \<Rightarrow> rect \<Rightarrow> int \<Rightarrow> int \<Rightarrow> rect list" where
  "split_free frs i r w h =
     (case r of (fx, fy, fw, fh) \<Rightarrow>
        (let frs1 = del_at i frs;
             frs2 = (if fw - w > 0 then frs1 @ [(fx + w, fy, fw - w, h)] else frs1);
             frs3 = (if fh - h > 0 then frs2 @ [(fx, fy + h, fw, fh - h)] else frs2)
         in frs3))"

text \<open>The outer loop \<open>for rotated in [False, True]\<close>; the result is the panel after the
  call and the value returned (\<open>None\<close> is Python's \<open>None\<close>).\<close>

fun try_orientations :: "Panel \<Rightarrow> int \<Rightarrow> int \<Rightarrow> bool list \<Rightarrow> Panel \<times> placement option" where
  "try_orientations p piece_width piece_height [] = (p, None)"
| "try_orientations p piece_width piece_height (rotated # rs) =
     (let w = (if rotated then piece_height else piece_width);
          h = (if rotated then piece_width else piece_height)
      in case scan_free w h 0 (free_rectangles p) of
           Some (i, (fx, fy, fw, fh)) \<Rightarrow>
             (p\<lparr>placements := placements p @ [(fx, fy, w, h, rotated)],
                free_rectangles := split_free (free_rectangles p) i (fx, fy, fw, fh) w h\<rparr>,
              Some (fx, fy, w, h, rotated))
         | None \<Rightarrow> try_orientations p piece_width piece_height rs)"

definition try_place :: "Panel \<Rightarrow> int \<Rightarrow> int \<Rightarrow> Panel \<times> placement option" where
  "try_place p piece_width piece_height =
     try_orientations p piece_width piece_height [False, True]"

subsection \<open>The description of try\_place in the specification\<close>

text \<open>A second definition, written from the words of the specification: the first
  rectangle of the list that is wide and high enough is accepted; the accepted rectangle
  is removed, the right strip and the bottom strip are appended when they are not empty;
  the unrotated orientation is tried first and the first match is returned.\<close>

definition fits :: "int \<Rightarrow> int \<Rightarrow> rect \<Rightarrow> bool" where
  "fits w h r = (case r of (fx, fy, fw, fh) \<Rightarrow> w \<le> fw \<and> h \<le> fh)"

definition first_fit :: "int \<Rightarrow> int \<Rightarrow> rect list \<Rightarrow> rect option" where
  "first_fit w h frs = find (fits w h) frs"

definition right_strip :: "rect \<Rightarrow> int \<Rightarrow> int \<Rightarrow> rect list" where
  "right_strip r w h =
     (case r of (fx, fy, fw, fh) \<Rightarrow> if 0 < fw - w then [(fx + w, fy, fw - w, h)] else [])"

definition bottom_strip :: "rect \<Rightarrow> int \<Rightarrow> int \<Rightarrow> rect list" where
  "bottom_strip r w h =
     (case r of (fx, fy, fw, fh) \<Rightarrow> if 0 < fh - h then [(fx, fy + h, fw, fh - h)] else [])"

definition accept_spec :: "Panel \<Rightarrow> rect \<Rightarrow> int \<Rightarrow> int \<Rightarrow> bool \<Rightarrow> Panel \<times> placement option" where
  "accept_spec p r w h rotated =
     (p\<lparr>placements := placements p @ [(fst r, fst (snd r), w, h, rotated)],
        free_rectangles :=
          remove1 r (free_rectangles p) @ right_strip r w h @ bottom_strip r w h\<rparr>,
      Some (fst r, fst (snd r), w, h, rotated))"

definition try_place_spec :: "Panel \<Rightarrow> int \<Rightarrow> int \<Rightarrow> Panel \<times> placement option" where
  "try_place_spec p piece_width piece_height =
     (case first_fit piece_width piece_height (free_rectangles p) of
        Some r \<Rightarrow> accept_spec p r piece_width piece_height False
      | None \<Rightarrow>
          (case first_fit piece_height piece_width (free_rectangles p) of
             Some r \<Rightarrow> accept_spec p r piece_height piece_width True
           | None \<Rightarrow> (p, None)))"

subsection \<open>optimize\_purchase\<close>

text \<open>Lines 65 to 68: every requirement \<open>(w, h, qty)\<close> contributes \<open>qty\<close> copies of
  \<open>(w, h)\<close>; \<open>range(qty)\<close> is empty for \<open>qty \<le> 0\<close>.\<close>

fun expand :: "requirement list \<Rightarrow> piece list" where
  "expand [] = []"
| "expand ((w, h, qty) # rest) = replicate (nat qty) (w, h) @ expand rest"

text \<open>Line 70: \<open>pieces.sort(key=lambda p: p[0] * p[1], reverse=True)\<close>. Python's sort is
  stable, also with \<open>reverse=True\<close> (pieces of equal area keep their order), which is the
  stable sort on the negated key.\<close>

definition sort_pieces :: "piece list \<Rightarrow> piece list" where
  "sort_pieces ps = sort_key (\<lambda>p. - (fst p * snd p)) ps"

text \<open>Line 98: \<open>cost / packed_area\<close> is Python's true division of two integers. It
  raises ZeroDivisionError on a zero divisor; otherwise the result is the double nearest
  to the exact quotient, or OverflowError when the quotient is too large for a double.
  The value of a double is a rational number, and only values are compared afterwards.
  The rounding is the parameter \<open>rnd\<close> (\<open>None\<close> for the overflow): every theorem below
  holds for every rounding function. \<open>exact\<close> is the rounding that changes nothing; it is
  right wherever the quotient is a double, as in the examples evaluated below.\<close>

definition truediv :: "(rat \<Rightarrow> rat option) \<Rightarrow> int \<Rightarrow> int \<Rightarrow> error + rat" where
  "truediv rnd a b =
     (if b = 0 then Inl ZeroDivisionError
      else case rnd (of_int a / of_int b) of
             None \<Rightarrow> Inl OverflowError
           | Some q \<Rightarrow> Inr q)"

definition exact :: "rat \<Rightarrow> rat option" where
  "exact q = Some q"

text \<open>Lines 88 to 93: the loop \<open>for i, (pw, ph) in enumerate(pieces)\<close> on one panel, with
  the list \<open>packed_indices\<close> built so far and the index \<open>i\<close> of the next piece.\<close>

fun pack_loop :: "Panel \<Rightarrow> nat list \<Rightarrow> nat \<Rightarrow> piece list \<Rightarrow> Panel \<times> nat list" where
  "pack_loop panel packed_indices i [] = (panel, packed_indices)"
| "pack_loop panel packed_indices i ((pw, ph) # rest) =
     (case try_place panel pw ph of
        (panel', Some pos) \<Rightarrow> pack_loop panel' (packed_indices @ [i]) (Suc i) rest
      | (panel', None) \<Rightarrow> pack_loop panel' packed_indices (Suc i) rest)"

text \<open>Lines 86 to 93: the simulation of one board type on a fresh panel.\<close>

definition simulate :: "board \<Rightarrow> piece list \<Rightarrow> Panel \<times> nat list" where
  "simulate board ps =
     (case board of (board_width, board_height, cost) \<Rightarrow>
        pack_loop (Panel_init board_width board_height) [] 0 ps)"

text \<open>Line 97: the packed area, from the pieces' own (unrotated) dimensions.\<close>

definition packed_area :: "piece list \<Rightarrow> nat list \<Rightarrow> int" where
  "packed_area ps packed_indices =
     sum_list (map (\<lambda>i. fst (ps ! i) * snd (ps ! i)) packed_indices)"

text \<open>The four \<open>best_\<close> variables of lines 79 to 82 are set together, so they are one
  optional tuple \<open>(best_efficiency, best_board, best_panel, best_packed_indices)\<close>.
  Line 99 is \<open>better\<close>.\<close>

type_synonym best = "rat \<times> board \<times> Panel \<times> nat list"

definition better :: "rat \<Rightarrow> best option \<Rightarrow> bool" where
  "better efficiency best =
     (case best of None \<Rightarrow> True
      | Some (best_efficiency, best_rest) \<Rightarrow> efficiency < best_efficiency)"

text \<open>Lines 85 to 103: the loop over the board types.\<close>

fun try_boards ::
  "(rat \<Rightarrow> rat option) \<Rightarrow> piece list \<Rightarrow> board list \<Rightarrow> best option \<Rightarrow> error + best option" where
  "try_boards rnd ps [] best = Inr best"
| "try_boards rnd ps (board # rest) best =
     (case simulate board ps of
        (panel, packed_indices) \<Rightarrow>
          if packed_indices = [] then try_boards rnd ps rest best
          else
            (case truediv rnd (snd (snd board)) (packed_area ps packed_indices) of
               Inl e \<Rightarrow> Inl e
             | Inr efficiency \<Rightarrow>
                 if better efficiency best
                 then try_boards rnd ps rest (Some (efficiency, board, panel, packed_indices))
                 else try_boards rnd ps rest best))"

text \<open>Lines 122 and 123: the packed pieces are deleted, highest index first.\<close>

definition remove_packed :: "nat list \<Rightarrow> piece list \<Rightarrow> piece list" where
  "remove_packed packed_indices ps = fold del_at (rev (sort packed_indices)) ps"

text \<open>The variables that the \<open>while\<close> loop carries.\<close>

record state =
  pieces :: "piece list"
  total_cost :: int
  board_solution :: "board list"
  cutting_plan :: "plan_entry list"
  board_count :: nat

definition tag :: "nat \<Rightarrow> placement \<Rightarrow> plan_entry" where
  "tag n pl = (case pl of (x, y, w, h, rotated) \<Rightarrow> (x, y, w, h, n, rotated))"

text \<open>Lines 79 to 124: one iteration of the \<open>while\<close> loop.\<close>

definition loop_body :: "(rat \<Rightarrow> rat option) \<Rightarrow> board list \<Rightarrow> state \<Rightarrow> error + state" where
  "loop_body rnd available_boards st =
     (case try_boards rnd (pieces st) available_boards None of
        Inl e \<Rightarrow> Inl e
      | Inr None \<Rightarrow> Inl UnpackablePiece
      | Inr (Some (best_efficiency, best_board, best_panel, best_packed_indices)) \<Rightarrow>
          Inr \<lparr>pieces = remove_packed best_packed_indices (pieces st),
               total_cost = total_cost st + snd (snd best_board),
               board_solution = board_solution st @ [best_board],
               cutting_plan =
                 cutting_plan st @ map (tag (board_count st + 1)) (placements best_panel),
               board_count = board_count st + 1\<rparr>)"

section \<open>Properties of try\_place\<close>

lemma scan_free_index:
  "scan_free w h i frs = Some (k, r) \<Longrightarrow> i \<le> k \<and> k - i < length frs \<and> frs ! (k - i) = r"
proof (induction frs arbitrary: i)
  case Nil
  then show ?case by simp
next
  case (Cons a frs)
  obtain fx fy fw fh where a: "a = (fx, fy, fw, fh)" by (cases a) auto
  show ?case
  proof (cases "fw \<ge> w \<and> fh \<ge> h")
    case True
    with Cons.prems a show ?thesis by auto
  next
    case False
    with Cons.prems a have "scan_free w h (Suc i) frs = Some (k, r)" by auto
    from Cons.IH [OF this] show ?thesis by (auto simp: Suc_diff_le)
  qed
qed

lemma scan_free_find:
  "scan_free w h i frs = None \<longleftrightarrow> find (fits w h) frs = None"
  by (induction frs arbitrary: i) (auto simp: fits_def)

lemma scan_free_first:
  "scan_free w h i frs = Some (k, r) \<Longrightarrow>
     find (fits w h) frs = Some r \<and> del_at (k - i) frs = remove1 r frs"
proof (induction frs arbitrary: i)
  case Nil
  then show ?case by simp
next
  case (Cons a frs)
  obtain fx fy fw fh where a: "a = (fx, fy, fw, fh)" by (cases a) auto
  show ?case
  proof (cases "fw \<ge> w \<and> fh \<ge> h")
    case True
    with Cons.prems a show ?thesis by (auto simp: fits_def del_at_def)
  next
    case False
    with Cons.prems a have s: "scan_free w h (Suc i) frs = Some (k, r)" by auto
    from scan_free_index [OF s] have k: "Suc i \<le> k" by simp
    then have d: "k - i = Suc (k - Suc i)" by simp
    from Cons.IH [OF s] have f: "find (fits w h) frs = Some r"
      and e: "del_at (k - Suc i) frs = remove1 r frs" by simp_all
    from False a have nf: "\<not> fits w h a" by (auto simp: fits_def)
    from f have "fits w h r" by (auto simp: find_Some_iff)
    with nf have "r \<noteq> a" by auto
    with nf f e d show ?thesis by (simp add: del_at_def)
  qed
qed

lemma split_free_spec:
  "split_free frs i r w h = del_at i frs @ right_strip r w h @ bottom_strip r w h"
  by (cases r) (simp add: split_free_def right_strip_def bottom_strip_def Let_def)

lemma try_orientation_hit:
  assumes "scan_free w h 0 (free_rectangles p) = Some (k, (fx, fy, fw, fh))"
  shows "(p\<lparr>placements := placements p @ [(fx, fy, w, h, rotated)],
            free_rectangles := split_free (free_rectangles p) k (fx, fy, fw, fh) w h\<rparr>,
          Some (fx, fy, w, h, rotated)) = accept_spec p (fx, fy, fw, fh) w h rotated"
proof -
  from scan_free_first [OF assms]
  have "del_at k (free_rectangles p) = remove1 (fx, fy, fw, fh) (free_rectangles p)" by simp
  then show ?thesis
    by (simp add: accept_spec_def split_free_spec)
qed

text \<open>C4. \<open>Panel.try_place\<close> does what the specification describes: it tries the
  unrotated orientation first and the rotated one second; in an orientation it accepts
  the first free rectangle, in list order, that is at least as wide and as high as the
  piece; it then records and returns the placement at that rectangle's origin, removes
  the rectangle, appends the right strip \<open>(x + w, y, width - w, h)\<close> when
  \<open>width - w > 0\<close> and the bottom strip \<open>(x, y + h, width, height - h)\<close>, of the
  rectangle's full width, when \<open>height - h > 0\<close>, and returns at the first match.
  The function translated from the source equals the one written from this
  description, on every panel and every piece.\<close>

theorem try_place_refines_spec:
  "try_place p piece_width piece_height = try_place_spec p piece_width piece_height"
proof (cases "scan_free piece_width piece_height 0 (free_rectangles p)")
  case None
  note first = this
  then have f1: "first_fit piece_width piece_height (free_rectangles p) = None"
    by (simp add: first_fit_def scan_free_find [THEN iffD1])
  show ?thesis
  proof (cases "scan_free piece_height piece_width 0 (free_rectangles p)")
    case None
    then have "first_fit piece_height piece_width (free_rectangles p) = None"
      by (simp add: first_fit_def scan_free_find [THEN iffD1])
    with None first f1 show ?thesis
      by (simp add: try_place_def try_place_spec_def)
  next
    case (Some a)
    obtain k fx fy fw fh where a: "a = (k, (fx, fy, fw, fh))" by (cases a) auto
    from Some a
    have s: "scan_free piece_height piece_width 0 (free_rectangles p) = Some (k, (fx, fy, fw, fh))"
      by simp
    from scan_free_first [OF s]
    have "first_fit piece_height piece_width (free_rectangles p) = Some (fx, fy, fw, fh)"
      by (simp add: first_fit_def)
    with first f1 s try_orientation_hit [OF s, where rotated = True] show ?thesis
      by (simp add: try_place_def try_place_spec_def)
  qed
next
  case (Some a)
  obtain k fx fy fw fh where a: "a = (k, (fx, fy, fw, fh))" by (cases a) auto
  from Some a
  have s: "scan_free piece_width piece_height 0 (free_rectangles p) = Some (k, (fx, fy, fw, fh))"
    by simp
  from scan_free_first [OF s]
  have "first_fit piece_width piece_height (free_rectangles p) = Some (fx, fy, fw, fh)"
    by (simp add: first_fit_def)
  with s try_orientation_hit [OF s, where rotated = False] show ?thesis
    by (simp add: try_place_def try_place_spec_def)
qed

lemma try_place_cases:
  obtains (nofit) "try_place p pw ph = (p, None)"
      "scan_free pw ph 0 (free_rectangles p) = None"
      "scan_free ph pw 0 (free_rectangles p) = None"
  | (fit) k fx fy fw fh w h rotated where
      "scan_free w h 0 (free_rectangles p) = Some (k, (fx, fy, fw, fh))"
      "(w, h) = (if rotated then (ph, pw) else (pw, ph))"
      "try_place p pw ph =
         (p\<lparr>placements := placements p @ [(fx, fy, w, h, rotated)],
            free_rectangles := split_free (free_rectangles p) k (fx, fy, fw, fh) w h\<rparr>,
          Some (fx, fy, w, h, rotated))"
proof (cases "scan_free pw ph 0 (free_rectangles p)")
  case None
  note first = this
  show ?thesis
  proof (cases "scan_free ph pw 0 (free_rectangles p)")
    case None
    with first have "try_place p pw ph = (p, None)" by (simp add: try_place_def)
    then show ?thesis using first None by (rule nofit)
  next
    case (Some a)
    obtain k fx fy fw fh where a: "a = (k, (fx, fy, fw, fh))" by (cases a) auto
    show ?thesis
      by (rule fit [of ph pw k fx fy fw fh True]) (use Some a first in \<open>simp_all add: try_place_def\<close>)
  qed
next
  case (Some a)
  obtain k fx fy fw fh where a: "a = (k, (fx, fy, fw, fh))" by (cases a) auto
  show ?thesis
    by (rule fit [of pw ph k fx fy fw fh False]) (use Some a in \<open>simp_all add: try_place_def\<close>)
qed

text \<open>C9. When \<open>Panel.try_place\<close> returns \<open>None\<close> (no free rectangle fits the piece
  in either orientation), the panel after the call is the panel before it: its list of
  free rectangles and its list of placements are unchanged.\<close>

theorem try_place_None_unchanged:
  "snd (try_place p piece_width piece_height) = None \<Longrightarrow>
     fst (try_place p piece_width piece_height) = p \<and>
     free_rectangles (fst (try_place p piece_width piece_height)) = free_rectangles p \<and>
     placements (fst (try_place p piece_width piece_height)) = placements p"
  by (rule try_place_cases [of p piece_width piece_height]) simp_all

theorem try_place_None_unchanged_witness:
  "snd (try_place (Panel_init 200 200) 5000 5000) = None \<and>
   fst (try_place (Panel_init 200 200) 5000 5000) = Panel_init 200 200 \<and>
   free_rectangles (fst (try_place (Panel_init 200 200) 5000 5000)) = [(0, 0, 200, 200)] \<and>
   placements (fst (try_place (Panel_init 200 200) 5000 5000)) = []"
proof -
  have h: "snd (try_place (Panel_init 200 200) 5000 5000) = None"
    by (simp add: try_place_def Panel_init_def)
  from try_place_None_unchanged [OF h] h show ?thesis
    by (simp add: Panel_init_def)
qed

lemma scan_free_fits:
  "scan_free w h i frs = Some (k, (fx, fy, fw, fh)) \<Longrightarrow> w \<le> fw \<and> h \<le> fh"
  using scan_free_first [of w h i frs k "(fx, fy, fw, fh)"]
  by (auto simp: find_Some_iff fits_def)

lemma length_del_at: "i < length xs \<Longrightarrow> Suc (length (del_at i xs)) = length xs"
  by (auto simp: del_at_def)


text \<open>C5, as the code has it. A call to \<open>Panel.try_place\<close> removes the matched
  rectangle and appends a strip only when the leftover width, respectively height, is
  positive. So the free list never loses more than one entry in a call, and it is
  shorter after the call only when the piece has been placed on a free rectangle of
  exactly the placed width and height; a call that returns \<open>None\<close> leaves it as it is.\<close>

theorem try_place_free_length:
  "length (free_rectangles p)
     \<le> Suc (length (free_rectangles (fst (try_place p piece_width piece_height)))) \<and>
   (length (free_rectangles (fst (try_place p piece_width piece_height)))
      < length (free_rectangles p) \<longrightarrow>
    (\<exists>x y w h rotated.
       snd (try_place p piece_width piece_height) = Some (x, y, w, h, rotated) \<and>
       (x, y, w, h) \<in> set (free_rectangles p)))"
proof (rule try_place_cases [of p piece_width piece_height])
  assume "try_place p piece_width piece_height = (p, None)"
  then show ?thesis by simp
next
  fix k fx fy fw fh w h rotated
  assume s: "scan_free w h 0 (free_rectangles p) = Some (k, (fx, fy, fw, fh))"
    and t: "try_place p piece_width piece_height =
         (p\<lparr>placements := placements p @ [(fx, fy, w, h, rotated)],
            free_rectangles := split_free (free_rectangles p) k (fx, fy, fw, fh) w h\<rparr>,
          Some (fx, fy, w, h, rotated))"
  from scan_free_index [OF s]
  have k: "k < length (free_rectangles p)" and r: "free_rectangles p ! k = (fx, fy, fw, fh)"
    by simp_all
  from scan_free_fits [OF s] have f: "w \<le> fw" "h \<le> fh" by simp_all
  from length_del_at [OF k]
  have l: "length (free_rectangles p) = Suc (length (del_at k (free_rectangles p)))" by simp
  have exact: "(fx, fy, w, h) \<in> set (free_rectangles p)" if "fw = w" "fh = h"
    using that k r by (metis nth_mem)
  show ?thesis
    using f exact by (auto simp: t l split_free_def Let_def)
qed

theorem try_place_free_length_witness:
  "length (free_rectangles (Panel_init 10 10))
     \<le> Suc (length (free_rectangles (fst (try_place (Panel_init 10 10) 10 10)))) \<and>
   length (free_rectangles (fst (try_place (Panel_init 10 10) 10 10)))
      < length (free_rectangles (Panel_init 10 10)) \<and>
   (\<exists>x y w h rotated.
       snd (try_place (Panel_init 10 10) 10 10) = Some (x, y, w, h, rotated) \<and>
       (x, y, w, h) \<in> set (free_rectangles (Panel_init 10 10)))"
proof -
  have h: "length (free_rectangles (fst (try_place (Panel_init 10 10) 10 10)))
      < length (free_rectangles (Panel_init 10 10))"
    by (simp add: try_place_def Panel_init_def split_free_def del_at_def)
  with try_place_free_length [of "Panel_init 10 10" 10 10] show ?thesis
    by blast
qed

text \<open>The claim as the specification words it (the length of the free list never
  decreases) fails on a piece that fills the board: the one free rectangle is removed
  and no strip is appended.\<close>

theorem try_place_free_length_counterexample:
  "\<not> length (free_rectangles (Panel_init 10 10))
       \<le> length (free_rectangles (fst (try_place (Panel_init 10 10) 10 10)))"
  by (simp add: try_place_def Panel_init_def split_free_def del_at_def)

section \<open>Properties of the simulation of a board\<close>

text \<open>The piece that a placement holds: its width and height before the rotation.\<close>

definition placed_piece :: "placement \<Rightarrow> piece" where
  "placed_piece pl = (case pl of (x, y, w, h, rotated) \<Rightarrow> if rotated then (h, w) else (w, h))"

lemma try_place_Some:
  "try_place p pw ph = (p', Some pl) \<Longrightarrow>
     placements p' = placements p @ [pl] \<and> placed_piece pl = (pw, ph)"
  by (rule try_place_cases [of p pw ph]) (auto simp: placed_piece_def split: if_splits)

lemma try_place_None: "try_place p pw ph = (p', None) \<Longrightarrow> p' = p"
  by (rule try_place_cases [of p pw ph]) auto

lemma pack_loop_indices:
  "pack_loop panel packed i rest = (panel', packed') \<Longrightarrow>
     \<exists>new pls. packed' = packed @ new \<and> sorted_wrt (<) new \<and>
       (\<forall>k\<in>set new. i \<le> k \<and> k < i + length rest) \<and>
       placements panel' = placements panel @ pls \<and>
       map placed_piece pls = map (\<lambda>k. rest ! (k - i)) new"
proof (induction rest arbitrary: panel packed i)
  case Nil
  then show ?case by simp
next
  case (Cons a rest)
  obtain pw ph where a: "a = (pw, ph)" by (cases a) auto
  obtain p1 res where t: "try_place panel pw ph = (p1, res)" by (cases "try_place panel pw ph") auto
  show ?case
  proof (cases res)
    case None
    with Cons.prems a t have "pack_loop p1 packed (Suc i) rest = (panel', packed')" by simp
    from Cons.IH [OF this] obtain new pls where n: "packed' = packed @ new" "sorted_wrt (<) new"
      "\<forall>k\<in>set new. Suc i \<le> k \<and> k < Suc i + length rest"
      "placements panel' = placements p1 @ pls"
      "map placed_piece pls = map (\<lambda>k. rest ! (k - Suc i)) new" by blast
    from t None have p1: "p1 = panel" by (simp add: try_place_None)
    have shift: "(a # rest) ! (k - i) = rest ! (k - Suc i)" if "Suc i \<le> k" for k
    proof -
      from that have "k - i = Suc (k - Suc i)" by arith
      then show ?thesis by simp
    qed
    have "map (\<lambda>k. (a # rest) ! (k - i)) new = map (\<lambda>k. rest ! (k - Suc i)) new"
      by (rule map_cong [OF refl]) (use n(3) shift in blast)
    with n p1 show ?thesis by (intro exI [of _ new] exI [of _ pls]) auto
  next
    case (Some pos)
    with Cons.prems a t have "pack_loop p1 (packed @ [i]) (Suc i) rest = (panel', packed')" by simp
    from Cons.IH [OF this] obtain new pls where n: "packed' = (packed @ [i]) @ new" "sorted_wrt (<) new"
      "\<forall>k\<in>set new. Suc i \<le> k \<and> k < Suc i + length rest"
      "placements panel' = placements p1 @ pls"
      "map placed_piece pls = map (\<lambda>k. rest ! (k - Suc i)) new" by blast
    from t Some have p1: "placements p1 = placements panel @ [pos]" "placed_piece pos = (pw, ph)"
      by (simp_all add: try_place_Some)
    have shift: "(a # rest) ! (k - i) = rest ! (k - Suc i)" if "Suc i \<le> k" for k
    proof -
      from that have "k - i = Suc (k - Suc i)" by arith
      then show ?thesis by simp
    qed
    have "map (\<lambda>k. (a # rest) ! (k - i)) new = map (\<lambda>k. rest ! (k - Suc i)) new"
      by (rule map_cong [OF refl]) (use n(3) shift in blast)
    with n p1 a show ?thesis by (intro exI [of _ "i # new"] exI [of _ "pos # pls"]) auto
  qed
qed

lemma nth_del_at: "j < k \<Longrightarrow> k < length xs \<Longrightarrow> del_at k xs ! j = xs ! j"
  by (simp add: del_at_def nth_append)

lemma mset_del_at: "k < length xs \<Longrightarrow> add_mset (xs ! k) (mset (del_at k xs)) = mset xs"
proof -
  assume k: "k < length xs"
  have "mset xs = mset (take k xs @ xs ! k # drop (Suc k) xs)"
    using id_take_nth_drop [OF k] by simp
  then show ?thesis by (simp add: del_at_def)
qed

lemma fold_del_at:
  "sorted_wrt (<) ks \<Longrightarrow> \<forall>k\<in>set ks. k < length xs \<Longrightarrow>
     length (fold del_at (rev ks) xs) + length ks = length xs \<and>
     mset (map ((!) xs) ks) + mset (fold del_at (rev ks) xs) = mset xs"
proof (induction ks arbitrary: xs rule: rev_induct)
  case Nil
  then show ?case by simp
next
  case (snoc k ks)
  from snoc.prems have s: "sorted_wrt (<) ks" and lt: "\<forall>j\<in>set ks. j < k" and k: "k < length xs"
    by (auto simp: sorted_wrt_append)
  from length_del_at [OF k] have l: "Suc (length (del_at k xs)) = length xs" .
  with lt k have "\<forall>j\<in>set ks. j < length (del_at k xs)" by auto
  from snoc.IH [OF s this]
  have ih: "length (fold del_at (rev ks) (del_at k xs)) + length ks = length (del_at k xs)"
    "mset (map ((!) (del_at k xs)) ks) + mset (fold del_at (rev ks) (del_at k xs)) = mset (del_at k xs)"
    by simp_all
  have m: "map ((!) (del_at k xs)) ks = map ((!) xs) ks"
    using lt k by (simp add: nth_del_at)
  from ih l m mset_del_at [OF k] show ?case by (simp add: add.commute add.left_commute)
qed

lemma try_boards_best:
  "try_boards rnd ps boards best = Inr (Some (e, b, panel, packed)) \<Longrightarrow>
     best = Some (e, b, panel, packed) \<or>
     (b \<in> set boards \<and> simulate b ps = (panel, packed) \<and> packed \<noteq> [] \<and>
      truediv rnd (snd (snd b)) (packed_area ps packed) = Inr e)"
proof (induction boards arbitrary: best)
  case Nil
  then show ?case by simp
next
  case (Cons board rest)
  obtain pn pk where sim: "simulate board ps = (pn, pk)" by (cases "simulate board ps") auto
  show ?case
  proof (cases "pk = []")
    case True
    with Cons.prems sim have "try_boards rnd ps rest best = Inr (Some (e, b, panel, packed))" by simp
    from Cons.IH [OF this] show ?thesis by auto
  next
    case False
    show ?thesis
    proof (cases "truediv rnd (snd (snd board)) (packed_area ps pk)")
      case (Inl err)
      with Cons.prems sim False show ?thesis by simp
    next
      case (Inr eff)
      show ?thesis
      proof (cases "better eff best")
        case True
        with Cons.prems sim False Inr
        have "try_boards rnd ps rest (Some (eff, board, pn, pk)) = Inr (Some (e, b, panel, packed))"
          by simp
        from Cons.IH [OF this] sim False Inr show ?thesis by auto
      next
        case nb: False
        with Cons.prems sim False Inr
        have "try_boards rnd ps rest best = Inr (Some (e, b, panel, packed))"
          by simp
        from Cons.IH [OF this] show ?thesis by auto
      qed
    qed
  qed
qed

lemma simulate_packed:
  assumes "simulate b ps = (panel, packed)"
  shows "sorted_wrt (<) packed \<and> (\<forall>k\<in>set packed. k < length ps) \<and>
         map placed_piece (placements panel) = map ((!) ps) packed"
proof -
  obtain bw bh c where b: "b = (bw, bh, c)" by (cases b) auto
  with assms have "pack_loop (Panel_init bw bh) [] 0 ps = (panel, packed)"
    by (simp add: simulate_def)
  from pack_loop_indices [OF this] show ?thesis
    by (auto simp: Panel_init_def)
qed

lemma remove_packed_simulate:
  assumes "simulate b ps = (panel, packed)"
  shows "length (remove_packed packed ps) + length packed = length ps"
    and "mset (map placed_piece (placements panel)) + mset (remove_packed packed ps) = mset ps"
proof -
  from simulate_packed [OF assms] have s: "sorted_wrt (<) packed"
    and r: "\<forall>k\<in>set packed. k < length ps"
    and m: "map placed_piece (placements panel) = map ((!) ps) packed" by simp_all
  from s have "sorted packed" by (rule strict_sorted_imp_sorted)
  then have "sort packed = packed" by (rule sorted_sort_id)
  with fold_del_at [OF s r] m
  show "length (remove_packed packed ps) + length packed = length ps"
    and "mset (map placed_piece (placements panel)) + mset (remove_packed packed ps) = mset ps"
    by (simp_all add: remove_packed_def)
qed

lemma loop_body_shrinks:
  assumes "loop_body rnd boards st = Inr st'"
  shows "length (pieces st') < length (pieces st)"
proof -
  from assms obtain e b panel packed where
    t: "try_boards rnd (pieces st) boards None = Inr (Some (e, b, panel, packed))"
    and p: "pieces st' = remove_packed packed (pieces st)"
    by (auto simp: loop_body_def split: sum.splits option.splits)
  from try_boards_best [OF t] have sim: "simulate b (pieces st) = (panel, packed)"
    and ne: "packed \<noteq> []" by simp_all
  from remove_packed_simulate(1) [OF sim] ne p show ?thesis
    by (cases packed) auto
qed

section \<open>The main loop\<close>

text \<open>Lines 78 to 126: the \<open>while pieces:\<close> loop. Every iteration that does not raise
  removes a piece (\<open>loop_body_shrinks\<close>), which is the termination argument.\<close>

function main_loop :: "(rat \<Rightarrow> rat option) \<Rightarrow> board list \<Rightarrow> state \<Rightarrow> error + state" where
  "main_loop rnd available_boards st =
     (if pieces st = [] then Inr st
      else case loop_body rnd available_boards st of
             Inl e \<Rightarrow> Inl e
           | Inr st' \<Rightarrow> main_loop rnd available_boards st')"
  by pat_completeness auto
termination
  by (relation "measure (\<lambda>(rnd, boards, st). length (pieces st))")
     (auto dest: loop_body_shrinks)

declare main_loop.simps [simp del]

lemma main_loop_done: "pieces st = [] \<Longrightarrow> main_loop rnd boards st = Inr st"
  by (subst main_loop.simps) simp

lemma main_loop_raise:
  "pieces st \<noteq> [] \<Longrightarrow> loop_body rnd boards st = Inl e \<Longrightarrow>
     main_loop rnd boards st = Inl e"
  by (subst main_loop.simps) simp

lemma main_loop_step:
  "pieces st \<noteq> [] \<Longrightarrow> loop_body rnd boards st = Inr st1 \<Longrightarrow>
     main_loop rnd boards st = main_loop rnd boards st1"
  by (subst main_loop.simps) simp

text \<open>Lines 64 to 75: the state at the first test of the loop.\<close>

definition initial_state :: "requirement list \<Rightarrow> state" where
  "initial_state required_pieces =
     \<lparr>pieces = sort_pieces (expand required_pieces), total_cost = 0,
      board_solution = [], cutting_plan = [], board_count = 0\<rparr>"

definition optimize_purchase ::
  "(rat \<Rightarrow> rat option) \<Rightarrow> requirement list \<Rightarrow> board list \<Rightarrow>
     error + (plan_entry list \<times> board list \<times> int)" where
  "optimize_purchase rnd required_pieces available_boards =
     (case main_loop rnd available_boards (initial_state required_pieces) of
        Inl e \<Rightarrow> Inl e
      | Inr st \<Rightarrow> Inr (cutting_plan st, board_solution st, total_cost st))"

text \<open>The state at the test of the loop after \<open>n\<close> complete iterations: \<open>None\<close> when the
  loop has left (no pieces) or raised before.\<close>

fun loop_state :: "(rat \<Rightarrow> rat option) \<Rightarrow> board list \<Rightarrow> nat \<Rightarrow> state \<Rightarrow> state option" where
  "loop_state rnd available_boards 0 st = Some st"
| "loop_state rnd available_boards (Suc n) st =
     (if pieces st = [] then None
      else case loop_body rnd available_boards st of
             Inl e \<Rightarrow> None
           | Inr st' \<Rightarrow> loop_state rnd available_boards n st')"

text \<open>The piece that an entry of the cutting plan holds, and its board number.\<close>

definition piece_of :: "plan_entry \<Rightarrow> piece" where
  "piece_of entry =
     (case entry of (x, y, w, h, board_number, rotated) \<Rightarrow> if rotated then (h, w) else (w, h))"


section \<open>Properties of optimize\_purchase\<close>

lemma loop_body_Inr:
  assumes "loop_body rnd boards st = Inr st1"
  obtains e b panel packed where
    "try_boards rnd (pieces st) boards None = Inr (Some (e, b, panel, packed))"
    "b \<in> set boards" "simulate b (pieces st) = (panel, packed)" "packed \<noteq> []"
    "pieces st1 = remove_packed packed (pieces st)"
    "total_cost st1 = total_cost st + snd (snd b)"
    "board_solution st1 = board_solution st @ [b]"
    "cutting_plan st1 = cutting_plan st @ map (tag (Suc (board_count st))) (placements panel)"
    "board_count st1 = Suc (board_count st)"
proof -
  from assms obtain e b panel packed where
    t: "try_boards rnd (pieces st) boards None = Inr (Some (e, b, panel, packed))"
    and s: "st1 = \<lparr>pieces = remove_packed packed (pieces st),
               total_cost = total_cost st + snd (snd b),
               board_solution = board_solution st @ [b],
               cutting_plan = cutting_plan st @ map (tag (board_count st + 1)) (placements panel),
               board_count = board_count st + 1\<rparr>"
    by (auto simp: loop_body_def split: sum.splits option.splits)
  from try_boards_best [OF t] have "b \<in> set boards" "simulate b (pieces st) = (panel, packed)"
    "packed \<noteq> []" by simp_all
  with t s show ?thesis by (intro that [of e b panel packed]) simp_all
qed

lemma piece_of_tag: "piece_of (tag n pl) = placed_piece pl"
  by (cases pl) (simp add: piece_of_def tag_def placed_piece_def)


lemma loop_body_mset:
  assumes "loop_body rnd boards st = Inr st1"
  shows "mset (map piece_of (cutting_plan st1)) + mset (pieces st1) =
         mset (map piece_of (cutting_plan st)) + mset (pieces st)"
proof -
  from assms obtain b panel packed where sim: "simulate b (pieces st) = (panel, packed)"
    and p: "pieces st1 = remove_packed packed (pieces st)"
    and c: "cutting_plan st1 = cutting_plan st @ map (tag (Suc (board_count st))) (placements panel)"
    by (rule loop_body_Inr)
  have t: "map piece_of (map (tag (Suc (board_count st))) (placements panel)) =
        map placed_piece (placements panel)"
    by (simp add: piece_of_tag)
  have "mset (map piece_of (cutting_plan st1)) + mset (pieces st1) =
        mset (map piece_of (cutting_plan st)) +
          (mset (map placed_piece (placements panel)) + mset (remove_packed packed (pieces st)))"
    unfolding c p map_append mset_append t by (simp only: add.assoc)
  also have "\<dots> = mset (map piece_of (cutting_plan st)) + mset (pieces st)"
    by (simp only: remove_packed_simulate(2) [OF sim])
  finally show ?thesis .
qed

lemma main_loop_mset:
  "main_loop rnd boards st = Inr st' \<Longrightarrow>
     mset (map piece_of (cutting_plan st')) =
     mset (map piece_of (cutting_plan st)) + mset (pieces st)"
proof (induction rnd boards st rule: main_loop.induct)
  case (1 rnd boards st)
  show ?case
  proof (cases "pieces st = []")
    case True
    with "1.prems" show ?thesis by (simp add: main_loop_done)
  next
    case False
    show ?thesis
    proof (cases "loop_body rnd boards st")
      case (Inl e)
      with False "1.prems" show ?thesis by (simp add: main_loop_raise)
    next
      case (Inr st1)
      with False "1.prems" have m: "main_loop rnd boards st1 = Inr st'"
        by (simp add: main_loop_step)
      from "1.IH" [OF False Inr m] loop_body_mset [OF Inr] show ?thesis by simp
    qed
  qed
qed


text \<open>C1. On every successful run, the pieces recovered from the cutting plan
  (\<open>(w, h)\<close> from an entry that is not rotated, \<open>(h, w)\<close> from a rotated one) are, as a
  multiset, the required pieces with every requirement \<open>(width, height, quantity)\<close>
  expanded into \<open>quantity\<close> copies: every required piece is in the plan exactly once.\<close>

theorem cutting_plan_pieces:
  assumes "optimize_purchase rnd required_pieces available_boards =
             Inr (plan, solution, cost)"
  shows "mset (map piece_of plan) = mset (expand required_pieces)"
proof -
  from assms obtain st where
    m: "main_loop rnd available_boards (initial_state required_pieces) = Inr st"
    and p: "plan = cutting_plan st"
    by (auto simp: optimize_purchase_def split: sum.splits)
  from main_loop_mset [OF m] p show ?thesis
    by (simp add: initial_state_def sort_pieces_def)
qed


theorem cutting_plan_pieces_witness:
  "optimize_purchase exact [(80, 120, 2), (100, 50, 1)] [(130, 90, 5), (200, 200, 10)] =
     Inr ([(0, 0, 80, 120, 1, False), (80, 0, 80, 120, 1, False), (0, 120, 100, 50, 1, False)],
          [(200, 200, 10)], 10) \<and>
   mset (map piece_of
          [(0, 0, 80, 120, 1, False), (80, 0, 80, 120, 1, False), (0, 120, 100, 50, 1, False)]) =
     mset (expand [(80, 120, 2), (100, 50, 1)])"
proof -
  have h: "optimize_purchase exact [(80, 120, 2), (100, 50, 1)] [(130, 90, 5), (200, 200, 10)] =
     Inr ([(0, 0, 80, 120, 1, False), (80, 0, 80, 120, 1, False), (0, 120, 100, 50, 1, False)],
          [(200, 200, 10)], 10)"
    by code_simp
  show ?thesis using h cutting_plan_pieces [OF h] by (rule conjI)
qed


text \<open>C10. When the required pieces expand to nothing (no requirement, or only
  quantities that are not positive), \<open>optimize_purchase\<close> returns the empty cutting
  plan, the empty board solution and the total cost 0, whatever the catalog of boards is
  (the empty catalog too); it does not raise.\<close>

theorem optimize_purchase_empty:
  "expand required_pieces = [] \<Longrightarrow>
     optimize_purchase rnd required_pieces available_boards = Inr ([], [], 0)"
  by (simp add: optimize_purchase_def initial_state_def sort_pieces_def main_loop_done)

theorem optimize_purchase_empty_witness:
  "expand [(100, 50, 0), (30, 20, -2)] = [] \<and>
   optimize_purchase exact [(100, 50, 0), (30, 20, -2)] [] = Inr ([], [], 0)"
proof -
  have h: "expand [(100, 50, 0), (30, 20, -2)] = []" by simp
  show ?thesis using h optimize_purchase_empty [OF h] by (rule conjI)
qed
























text \<open>A board type packs none of the pending pieces: its simulation ends with an empty
  \<open>packed_indices\<close> (the test of line 94).\<close>

definition packs_nothing :: "board \<Rightarrow> piece list \<Rightarrow> bool" where
  "packs_nothing board ps \<longleftrightarrow> snd (simulate board ps) = []"

lemma truediv_not_unpackable: "truediv rnd a b \<noteq> Inl UnpackablePiece"
  by (simp add: truediv_def split: option.splits)

lemma try_boards_not_unpackable: "try_boards rnd ps boards best \<noteq> Inl UnpackablePiece"
proof (induction boards arbitrary: best)
  case Nil
  then show ?case by simp
next
  case (Cons board rest)
  obtain pn pk where sim: "simulate board ps = (pn, pk)" by (cases "simulate board ps") auto
  show ?case
    using Cons.IH sim truediv_not_unpackable [of rnd "snd (snd board)" "packed_area ps pk"]
    by (auto split: sum.splits)
qed

lemma try_boards_Some: "try_boards rnd ps boards (Some x) \<noteq> Inr None"
proof (induction boards arbitrary: x)
  case Nil
  then show ?case by simp
next
  case (Cons board rest)
  obtain pn pk where sim: "simulate board ps = (pn, pk)" by (cases "simulate board ps") auto
  show ?case using Cons.IH sim by (auto split: sum.splits)
qed

lemma try_boards_None:
  "try_boards rnd ps boards None = Inr None \<longleftrightarrow> (\<forall>b \<in> set boards. packs_nothing b ps)"
proof (induction boards)
  case Nil
  then show ?case by simp
next
  case (Cons board rest)
  obtain pn pk where sim: "simulate board ps = (pn, pk)" by (cases "simulate board ps") auto
  show ?case
  proof (cases "pk = []")
    case True
    with sim Cons.IH show ?thesis by (simp add: packs_nothing_def)
  next
    case False
    with sim have "\<not> packs_nothing board ps" by (simp add: packs_nothing_def)
    moreover have "try_boards rnd ps (board # rest) None \<noteq> Inr None"
      using sim False try_boards_Some by (auto simp: better_def split: sum.splits)
    ultimately show ?thesis by simp
  qed
qed

lemma loop_body_unpackable:
  "loop_body rnd boards st = Inl UnpackablePiece \<longleftrightarrow>
     (\<forall>b \<in> set boards. packs_nothing b (pieces st))"
proof -
  have "loop_body rnd boards st = Inl UnpackablePiece \<longleftrightarrow>
        try_boards rnd (pieces st) boards None = Inr None"
    using try_boards_not_unpackable [of rnd "pieces st" boards None]
    by (auto simp: loop_body_def split: sum.splits option.splits)
  then show ?thesis by (simp add: try_boards_None)
qed

lemma main_loop_unpackable:
  "main_loop rnd boards st = Inl UnpackablePiece \<longleftrightarrow>
     (\<exists>n st'. loop_state rnd boards n st = Some st' \<and> pieces st' \<noteq> [] \<and>
        (\<forall>b \<in> set boards. packs_nothing b (pieces st')))"
  (is "?L st \<longleftrightarrow> ?R st")
proof
  show "?R st" if "?L st"
    using that
  proof (induction rnd boards st rule: main_loop.induct)
    case (1 rnd boards st)
    show ?case
    proof (cases "pieces st = []")
      case True
      with "1.prems" show ?thesis by (simp add: main_loop_done)
    next
      case False
      show ?thesis
      proof (cases "loop_body rnd boards st")
        case (Inl e)
        with False "1.prems" have "e = UnpackablePiece" by (simp add: main_loop_raise)
        with Inl have "\<forall>b \<in> set boards. packs_nothing b (pieces st)"
          by (simp add: loop_body_unpackable)
        with False have "loop_state rnd boards 0 st = Some st \<and> pieces st \<noteq> [] \<and>
            (\<forall>b \<in> set boards. packs_nothing b (pieces st))" by simp
        then show ?thesis by blast
      next
        case (Inr st1)
        with False "1.prems" have "main_loop rnd boards st1 = Inl UnpackablePiece"
          by (simp add: main_loop_step)
        from "1.IH" [OF False Inr this] obtain n st' where
          r: "loop_state rnd boards n st1 = Some st'" "pieces st' \<noteq> []"
             "\<forall>b \<in> set boards. packs_nothing b (pieces st')" by blast
        from r(1) False Inr have "loop_state rnd boards (Suc n) st = Some st'" by simp
        with r(2,3) show ?thesis by blast
      qed
    qed
  qed
next
  assume "?R st"
  then obtain n st' where r: "loop_state rnd boards n st = Some st'" "pieces st' \<noteq> []"
    "\<forall>b \<in> set boards. packs_nothing b (pieces st')" by blast
  then show "?L st"
  proof (induction n arbitrary: st)
    case 0
    then have "st' = st" by simp
    with 0 have "loop_body rnd boards st = Inl UnpackablePiece"
      by (simp add: loop_body_unpackable)
    with 0 \<open>st' = st\<close> show ?case by (simp add: main_loop_raise)
  next
    case (Suc n)
    from Suc.prems(1) have ne: "pieces st \<noteq> []" by (auto split: if_splits)
    with Suc.prems(1) obtain st1 where b: "loop_body rnd boards st = Inr st1"
      and l: "loop_state rnd boards n st1 = Some st'"
      by (auto split: sum.splits)
    from Suc.IH [OF l Suc.prems(2,3)] have "main_loop rnd boards st1 = Inl UnpackablePiece" .
    with ne b show ?case by (simp add: main_loop_step)
  qed
qed


text \<open>C6. \<open>optimize_purchase\<close> raises the error UnpackablePiece (the \<open>ValueError\<close> of
  line 106) if and only if some iteration of its loop is reached with a pending list
  that is not empty and of which every board type of the catalog packs no piece. The
  result is then the error alone: a value \<open>Inl UnpackablePiece\<close> holds no cutting plan,
  no board solution and no cost, and \<open>main_loop\<close> returns it from the iteration that
  found it (\<open>main_loop_raise\<close>).\<close>

theorem unpackable_iff:
  "optimize_purchase rnd required_pieces available_boards = Inl UnpackablePiece \<longleftrightarrow>
     (\<exists>n st. loop_state rnd available_boards n (initial_state required_pieces) = Some st \<and>
        pieces st \<noteq> [] \<and> (\<forall>b \<in> set available_boards. packs_nothing b (pieces st)))"
proof -
  have "optimize_purchase rnd required_pieces available_boards = Inl UnpackablePiece \<longleftrightarrow>
        main_loop rnd available_boards (initial_state required_pieces) = Inl UnpackablePiece"
    by (simp add: optimize_purchase_def split: sum.splits)
  then show ?thesis by (simp only: main_loop_unpackable)
qed

theorem unpackable_iff_witness:
  "optimize_purchase exact [(5000, 5000, 1)] [(200, 200, 10)] = Inl UnpackablePiece \<and>
   (\<exists>n st. loop_state exact [(200, 200, 10)] n (initial_state [(5000, 5000, 1)]) = Some st \<and>
        pieces st \<noteq> [] \<and> (\<forall>b \<in> set [(200, 200, 10)]. packs_nothing b (pieces st)))"
proof -
  have h: "optimize_purchase exact [(5000, 5000, 1)] [(200, 200, 10)] = Inl UnpackablePiece"
    by code_simp
  with unpackable_iff [of exact "[(5000, 5000, 1)]" "[(200, 200, 10)]"] show ?thesis by blast
qed

text \<open>Lines 97 and 98: the efficiency of a board type on the pending pieces, the unit cost
  divided by the packed area of its simulation (an error when the division raises).\<close>

definition efficiency :: "(rat \<Rightarrow> rat option) \<Rightarrow> piece list \<Rightarrow> board \<Rightarrow> error + rat" where
  "efficiency rnd ps board =
     truediv rnd (snd (snd board)) (packed_area ps (snd (simulate board ps)))"














lemma try_boards_error:
  "try_boards rnd ps boards best = Inl e \<Longrightarrow>
     \<exists>b \<in> set boards. \<not> packs_nothing b ps \<and> efficiency rnd ps b = Inl e"
proof (induction boards arbitrary: best)
  case Nil
  then show ?case by simp
next
  case (Cons board rest)
  obtain pn pk where sim: "simulate board ps = (pn, pk)" by (cases "simulate board ps") auto
  show ?case
  proof (cases "pk = []")
    case True
    with Cons.prems sim have "try_boards rnd ps rest best = Inl e" by simp
    from Cons.IH [OF this] show ?thesis by auto
  next
    case False
    with sim have p: "\<not> packs_nothing board ps" by (simp add: packs_nothing_def)
    show ?thesis
    proof (cases "truediv rnd (snd (snd board)) (packed_area ps pk)")
      case (Inl err)
      with Cons.prems sim False have "err = e" by simp
      with Inl sim have "efficiency rnd ps board = Inl e" by (simp add: efficiency_def)
      with p show ?thesis by auto
    next
      case (Inr eff)
      with Cons.prems sim False
      have "\<exists>best'. try_boards rnd ps rest best' = Inl e" by (auto split: if_splits)
      then obtain best' where "try_boards rnd ps rest best' = Inl e" ..
      from Cons.IH [OF this] show ?thesis by auto
    qed
  qed
qed

lemma loop_body_cases:
  "(loop_body rnd boards st = Inl UnpackablePiece \<and>
      (\<forall>b \<in> set boards. packs_nothing b (pieces st))) \<or>
   (\<exists>e b. loop_body rnd boards st = Inl e \<and> e \<noteq> UnpackablePiece \<and> b \<in> set boards \<and>
      \<not> packs_nothing b (pieces st) \<and> efficiency rnd (pieces st) b = Inl e) \<or>
   (\<exists>st' b. loop_body rnd boards st = Inr st' \<and> b \<in> set boards \<and>
      \<not> packs_nothing b (pieces st) \<and>
      pieces st' = remove_packed (snd (simulate b (pieces st))) (pieces st) \<and>
      length (pieces st') < length (pieces st))"
proof (cases "loop_body rnd boards st")
  case (Inl e)
  show ?thesis
  proof (cases "e = UnpackablePiece")
    case True
    with Inl show ?thesis by (simp add: loop_body_unpackable)
  next
    case False
    with Inl have "try_boards rnd (pieces st) boards None = Inl e"
      by (auto simp: loop_body_def split: sum.splits option.splits)
    from try_boards_error [OF this] Inl False show ?thesis by blast
  qed
next
  case (Inr st')
  then obtain b panel packed where b: "b \<in> set boards"
    and sim: "simulate b (pieces st) = (panel, packed)" and ne: "packed \<noteq> []"
    and p: "pieces st' = remove_packed packed (pieces st)"
    by (rule loop_body_Inr)
  from sim ne have "\<not> packs_nothing b (pieces st)" by (simp add: packs_nothing_def)
  moreover from sim p have "pieces st' = remove_packed (snd (simulate b (pieces st))) (pieces st)"
    by simp
  moreover from Inr have "length (pieces st') < length (pieces st)" by (rule loop_body_shrinks)
  ultimately show ?thesis using Inr b by blast
qed

lemma main_loop_exits:
  "\<exists>n s. n \<le> length (pieces st) \<and> loop_state rnd boards n st = Some s \<and>
     (pieces s = [] \<or> (\<exists>e. loop_body rnd boards s = Inl e)) \<and>
     main_loop rnd boards st = (if pieces s = [] then Inr s else loop_body rnd boards s)"
proof (induction rnd boards st rule: main_loop.induct)
  case (1 rnd boards st)
  show ?case
  proof (cases "pieces st = []")
    case True
    then have "0 \<le> length (pieces st) \<and> loop_state rnd boards 0 st = Some st \<and>
     (pieces st = [] \<or> (\<exists>e. loop_body rnd boards st = Inl e)) \<and>
     main_loop rnd boards st = (if pieces st = [] then Inr st else loop_body rnd boards st)"
      by (simp add: main_loop_done)
    then show ?thesis by blast
  next
    case False
    show ?thesis
    proof (cases "loop_body rnd boards st")
      case (Inl e)
      with False have "0 \<le> length (pieces st) \<and> loop_state rnd boards 0 st = Some st \<and>
       (pieces st = [] \<or> (\<exists>e. loop_body rnd boards st = Inl e)) \<and>
       main_loop rnd boards st = (if pieces st = [] then Inr st else loop_body rnd boards st)"
        by (simp add: main_loop_raise)
      then show ?thesis by blast
    next
      case (Inr st1)
      from "1.IH" [OF False Inr] obtain n s where
        r: "n \<le> length (pieces st1)" "loop_state rnd boards n st1 = Some s"
           "pieces s = [] \<or> (\<exists>e. loop_body rnd boards s = Inl e)"
           "main_loop rnd boards st1 = (if pieces s = [] then Inr s else loop_body rnd boards s)"
        by blast
      from Inr have "length (pieces st1) < length (pieces st)" by (rule loop_body_shrinks)
      with r(1) have "Suc n \<le> length (pieces st)" by simp
      moreover from False Inr r(2) have "loop_state rnd boards (Suc n) st = Some s" by simp
      moreover from False Inr r(4)
      have "main_loop rnd boards st = (if pieces s = [] then Inr s else loop_body rnd boards s)"
        by (simp add: main_loop_step)
      ultimately show ?thesis using r(3) by blast
    qed
  qed
qed


text \<open>C8, as the code has it. The main loop terminates on every input. An iteration
  does one of three things: it raises UnpackablePiece, when no board type packs a piece;
  or it raises the error of the division of line 98 for a board type that packed a piece
  (ZeroDivisionError when the packed area is zero: the code does not validate the
  dimensions); or it commits a board type that packed at least one piece and removes the
  packed pieces, so that the pending list is strictly shorter. Hence the loop leaves,
  with no pending piece or with an error, after at most as many iterations as there are
  pending pieces, and \<open>main_loop\<close> returns what that last state gives.\<close>

theorem main_loop_terminates:
  "((loop_body rnd boards st = Inl UnpackablePiece \<and>
      (\<forall>b \<in> set boards. packs_nothing b (pieces st))) \<or>
    (\<exists>e b. loop_body rnd boards st = Inl e \<and> e \<noteq> UnpackablePiece \<and> b \<in> set boards \<and>
      \<not> packs_nothing b (pieces st) \<and> efficiency rnd (pieces st) b = Inl e) \<or>
    (\<exists>st' b. loop_body rnd boards st = Inr st' \<and> b \<in> set boards \<and>
      \<not> packs_nothing b (pieces st) \<and>
      pieces st' = remove_packed (snd (simulate b (pieces st))) (pieces st) \<and>
      length (pieces st') < length (pieces st))) \<and>
   (\<exists>n s. n \<le> length (pieces st) \<and> loop_state rnd boards n st = Some s \<and>
      (pieces s = [] \<or> (\<exists>e. loop_body rnd boards s = Inl e)) \<and>
      main_loop rnd boards st = (if pieces s = [] then Inr s else loop_body rnd boards s))"
  using loop_body_cases [of rnd boards st] main_loop_exits [of st rnd boards] by (rule conjI)


theorem main_loop_terminates_witness:
  "loop_body exact [(100, 100, 3)] (initial_state [(100, 100, 2)]) =
     Inr \<lparr>pieces = [(100, 100)], total_cost = 3, board_solution = [(100, 100, 3)],
          cutting_plan = [(0, 0, 100, 100, 1, False)], board_count = 1\<rparr> \<and>
   \<not> packs_nothing (100, 100, 3) (pieces (initial_state [(100, 100, 2)])) \<and>
   (\<exists>st' b. loop_body exact [(100, 100, 3)] (initial_state [(100, 100, 2)]) = Inr st' \<and>
      b \<in> set [(100, 100, 3)] \<and>
      \<not> packs_nothing b (pieces (initial_state [(100, 100, 2)])) \<and>
      pieces st' = remove_packed (snd (simulate b (pieces (initial_state [(100, 100, 2)]))))
                     (pieces (initial_state [(100, 100, 2)])) \<and>
      length (pieces st') < length (pieces (initial_state [(100, 100, 2)]))) \<and>
   (\<exists>n s. n \<le> length (pieces (initial_state [(100, 100, 2)])) \<and>
      loop_state exact [(100, 100, 3)] n (initial_state [(100, 100, 2)]) = Some s \<and>
      (pieces s = [] \<or> (\<exists>e. loop_body exact [(100, 100, 3)] s = Inl e)) \<and>
      main_loop exact [(100, 100, 3)] (initial_state [(100, 100, 2)]) =
        (if pieces s = [] then Inr s else loop_body exact [(100, 100, 3)] s))"
proof -
  have h: "loop_body exact [(100, 100, 3)] (initial_state [(100, 100, 2)]) =
     Inr \<lparr>pieces = [(100, 100)], total_cost = 3, board_solution = [(100, 100, 3)],
          cutting_plan = [(0, 0, 100, 100, 1, False)], board_count = 1\<rparr>"
    by code_simp
  have p: "\<not> packs_nothing (100, 100, 3) (pieces (initial_state [(100, 100, 2)]))"
    by code_simp
  from h have "loop_body exact [(100, 100, 3)] (initial_state [(100, 100, 2)]) \<noteq>
      Inl UnpackablePiece"
    and "\<And>e. loop_body exact [(100, 100, 3)] (initial_state [(100, 100, 2)]) \<noteq> Inl e"
    by simp_all
  with h p main_loop_terminates [of exact "[(100, 100, 3)]" "initial_state [(100, 100, 2)]"]
  show ?thesis by blast
qed

text \<open>The claim as the specification words it (every iteration raises UnpackablePiece or
  commits a board) fails on a piece of area zero: the board packs it, the packed area is
  0, and the division raises ZeroDivisionError.\<close>

theorem main_loop_terminates_counterexample:
  "pieces (initial_state [(0, 5, 1)]) \<noteq> [] \<and>
   loop_body exact [(10, 10, 1)] (initial_state [(0, 5, 1)]) = Inl ZeroDivisionError \<and>
   loop_body exact [(10, 10, 1)] (initial_state [(0, 5, 1)]) \<noteq> Inl UnpackablePiece \<and>
   optimize_purchase exact [(0, 5, 1)] [(10, 10, 1)] = Inl ZeroDivisionError"
  by code_simp

end
